theory Spec2Isabelle
  imports Complex_Main
begin

section \<open>Arrays\<close>

text \<open>
  The kernels of \<^verbatim>\<open>elastica/_linalg.py\<close> work on numpy arrays of floats. An array is
  its shape together with its elements in row-major (C) order; the elements are read as
  real numbers, so every statement below is one of exact arithmetic.
\<close>

datatype error = ValueError | IndexError

record ndarray =
  shape :: "nat list"
  data :: "real list"

definition wf_array :: "ndarray \<Rightarrow> bool" where
  "wf_array a \<longleftrightarrow> length (data a) = prod_list (shape a)"

text \<open>The offset of a multi-index in row-major order.\<close>

fun flat_index :: "nat list \<Rightarrow> nat list \<Rightarrow> nat" where
  "flat_index (n # ns) (i # is) = i * prod_list ns + flat_index ns is"
| "flat_index _ _ = 0"

definition item :: "ndarray \<Rightarrow> nat list \<Rightarrow> real" where
  "item a idx = data a ! flat_index (shape a) idx"

text \<open>All multi-indices of a shape, in row-major order (\<^verbatim>\<open>numpy.ndindex\<close>).\<close>

fun ndindex :: "nat list \<Rightarrow> nat list list" where
  "ndindex [] = [[]]"
| "ndindex (n # ns) = concat (map (\<lambda>i. map ((#) i) (ndindex ns)) [0..<n])"

text \<open>A multi-index is in range for a shape.\<close>

fun in_range :: "nat list \<Rightarrow> nat list \<Rightarrow> bool" where
  "in_range [] [] = True"
| "in_range (n # ns) (i # is) = (i < n \<and> in_range ns is)"
| "in_range _ _ = False"

text \<open>\<^verbatim>\<open>numpy.zeros(shape)\<close>.\<close>

definition zeros :: "nat list \<Rightarrow> ndarray" where
  "zeros shp = \<lparr>shape = shp, data = replicate (prod_list shp) 0\<rparr>"

text \<open>\<^verbatim>\<open>a[idx] = x\<close> for a full multi-index that is in range.\<close>

definition setitem :: "ndarray \<Rightarrow> nat list \<Rightarrow> real \<Rightarrow> ndarray" where
  "setitem a idx x = a\<lparr>data := (data a)[flat_index (shape a) idx := x]\<rparr>"

text \<open>Elementwise negation, \<^verbatim>\<open>-a\<close>.\<close>

definition negative :: "ndarray \<Rightarrow> ndarray" where
  "negative a = a\<lparr>data := map uminus (data a)\<rparr>"

section \<open>Einstein summation\<close>

text \<open>
  \<^verbatim>\<open>numpy.einsum(subscripts, *operands)\<close> for the subscript strings this module uses:
  explicit output (\<^verbatim>\<open>->\<close>), no ellipsis, no label repeated inside one operand.
  numpy fails with ValueError when an operand's number of axes differs from the number of
  its subscripts, and when the sizes that the operands give to one label cannot be
  broadcast together; a size of 1 is broadcast against any other size.
\<close>

fun split_on :: "char \<Rightarrow> string \<Rightarrow> string list" where
  "split_on c [] = [[]]"
| "split_on c (x # xs) =
     (if x = c then [] # split_on c xs
      else (case split_on c xs of [] \<Rightarrow> [[x]] | w # ws \<Rightarrow> (x # w) # ws))"

definition parse_subscripts :: "string \<Rightarrow> string list \<times> string" where
  "parse_subscripts s =
     (split_on CHR '','' (takeWhile (\<lambda>c. c \<noteq> CHR ''-'') s),
      drop 2 (dropWhile (\<lambda>c. c \<noteq> CHR ''-'') s))"

definition broadcast_dim :: "nat \<Rightarrow> nat \<Rightarrow> nat option" where
  "broadcast_dim a b =
     (if a = b \<or> b = 1 then Some a else if a = 1 then Some b else None)"

fun broadcast_dims :: "nat list \<Rightarrow> nat option" where
  "broadcast_dims [] = Some 1"
| "broadcast_dims (n # ns) =
     (case broadcast_dims ns of None \<Rightarrow> None | Some m \<Rightarrow> broadcast_dim n m)"

text \<open>The sizes that the operands give to the label \<open>c\<close>.\<close>

definition label_dims :: "string list \<Rightarrow> ndarray list \<Rightarrow> char \<Rightarrow> nat list" where
  "label_dims ins ops c =
     concat (map (\<lambda>(ls, a). map snd (filter (\<lambda>(l, n). l = c) (zip ls (shape a))))
                 (zip ins ops))"

fun lookup :: "(char \<times> nat) list \<Rightarrow> char \<Rightarrow> nat" where
  "lookup [] c = 0"
| "lookup ((l, v) # env) c = (if l = c then v else lookup env c)"

text \<open>
  The multi-index at which an operand is read: the value of each of its labels, and 0
  on an axis of size 1, which is broadcast.
\<close>

definition operand_index :: "(char \<times> nat) list \<Rightarrow> string \<Rightarrow> ndarray \<Rightarrow> nat list" where
  "operand_index env ls a =
     map (\<lambda>(l, n). if n = 1 then 0 else lookup env l) (zip ls (shape a))"

definition einsum :: "string \<Rightarrow> ndarray list \<Rightarrow> error + ndarray" where
  "einsum subscripts ops =
     (let (ins, out) = parse_subscripts subscripts;
          labels = remdups (concat ins);
          summed = filter (\<lambda>c. c \<notin> set out) labels
      in if length ins \<noteq> length ops then Inl ValueError
         else if list_ex (\<lambda>(ls, a). length ls \<noteq> length (shape a)) (zip ins ops)
           then Inl ValueError
         else if list_ex (\<lambda>c. c \<notin> set labels) out then Inl ValueError
         else if list_ex (\<lambda>c. broadcast_dims (label_dims ins ops c) = None) labels
           then Inl ValueError
         else
           let size_of = (\<lambda>c. case broadcast_dims (label_dims ins ops c) of
                                 Some n \<Rightarrow> n | None \<Rightarrow> 0)
           in Inr \<lparr>shape = map size_of out,
                   data = map (\<lambda>oi. sum_list (map (\<lambda>si.
                             prod_list (map (\<lambda>(ls, a).
                               item a (operand_index (zip (out @ summed) (oi @ si)) ls a))
                               (zip ins ops)))
                             (ndindex (map size_of summed))))
                           (ndindex (map size_of out))\<rparr>)"

section \<open>The Levi-Civita tensor\<close>

text \<open>
  \<^verbatim>\<open>itertools.permutations(pool, r)\<close>: the tuples of \<open>r\<close> elements taken from
  distinct positions of the pool, in lexicographic order of the positions.
\<close>

fun permutations :: "'a list \<Rightarrow> nat \<Rightarrow> 'a list list" where
  "permutations pool 0 = [[]]"
| "permutations pool (Suc r) =
     concat (map (\<lambda>i. map ((#) (pool ! i)) (permutations (take i pool @ drop (Suc i) pool) r))
                 [0..<length pool])"

text \<open>
  Modelled from the spec: \<^verbatim>\<open>perm_parity\<close> is imported from \<^verbatim>\<open>elastica/utils.py\<close>,
  which is not among the sources. The spec gives its contract: for a permutation of
  \<open>0..d-1\<close> it returns the sign, +1 for an even and -1 for an odd permutation. The sign
  is computed here as the product, over the pairs of positions, of -1 for every
  inversion.
\<close>

fun perm_parity :: "nat list \<Rightarrow> int" where
  "perm_parity [] = 1"
| "perm_parity (x # xs) = (\<Prod>y\<leftarrow>xs. if y < x then - 1 else 1) * perm_parity xs"

text \<open>The body of \<^verbatim>\<open>levi_civita_tensor\<close>, without the cache in front of it.\<close>

definition levi_civita_tensor_wrapped :: "nat \<Rightarrow> ndarray" where
  "levi_civita_tensor_wrapped dim' =
     fold (\<lambda>index_tup epsilon. setitem epsilon index_tup (real_of_int (perm_parity index_tup)))
          (permutations [0..<dim'] dim')
          (zeros (replicate dim' dim'))"

text \<open>
  \<^verbatim>\<open>functools.lru_cache(maxsize=1)\<close>: one slot holding the last argument and its
  result, and the counters of hits and misses that \<^verbatim>\<open>cache_info()\<close> reports. A miss
  runs the body and replaces the slot.
\<close>

record lru_cache =
  slot :: "(nat \<times> ndarray) option"
  hits :: nat
  misses :: nat

definition empty_cache :: lru_cache where
  "empty_cache = \<lparr>slot = None, hits = 0, misses = 0\<rparr>"

definition lru_cache_call :: "(nat \<Rightarrow> ndarray) \<Rightarrow> nat \<Rightarrow> lru_cache \<Rightarrow> ndarray \<times> lru_cache" where
  "lru_cache_call f key c =
     (case slot c of
        Some (k, result) \<Rightarrow>
          if k = key then (result, c\<lparr>hits := hits c + 1\<rparr>)
          else (f key, c\<lparr>slot := Some (key, f key), misses := misses c + 1\<rparr>)
      | None \<Rightarrow> (f key, c\<lparr>slot := Some (key, f key), misses := misses c + 1\<rparr>))"

definition levi_civita_tensor :: "nat \<Rightarrow> lru_cache \<Rightarrow> ndarray \<times> lru_cache" where
  "levi_civita_tensor dim' c = lru_cache_call levi_civita_tensor_wrapped dim' c"

text \<open>The cache after a history of requests, starting from the empty cache.\<close>

definition after_calls :: "nat list \<Rightarrow> lru_cache" where
  "after_calls dims = fold (\<lambda>dim' c. snd (levi_civita_tensor dim' c)) dims empty_cache"

text \<open>The slot, when filled, holds the tensor of the dimension it is keyed by.\<close>

definition cache_consistent :: "lru_cache \<Rightarrow> bool" where
  "cache_consistent c \<longleftrightarrow>
     (case slot c of None \<Rightarrow> True | Some (k, t) \<Rightarrow> t = levi_civita_tensor_wrapped k)"

section \<open>The kernels\<close>

definition batch_matvec :: "ndarray \<Rightarrow> ndarray \<Rightarrow> error + ndarray" where
  "batch_matvec matrix_collection vector_collection =
     einsum ''ijk,jk->ik'' [matrix_collection, vector_collection]"

definition batch_matmul :: "ndarray \<Rightarrow> ndarray \<Rightarrow> error + ndarray" where
  "batch_matmul first_matrix_collection second_matrix_collection =
     einsum ''ijk,jlk->ilk'' [first_matrix_collection, second_matrix_collection]"

text \<open>
  \<^verbatim>\<open>first_vector_collection.shape[0]\<close> raises IndexError on an array without
  axes; the tensor is then requested from the cache before the contraction runs.
\<close>

definition batch_cross ::
    "ndarray \<Rightarrow> ndarray \<Rightarrow> lru_cache \<Rightarrow> (error + ndarray) \<times> lru_cache" where
  "batch_cross first_vector_collection second_vector_collection c =
     (case shape first_vector_collection of
        [] \<Rightarrow> (Inl IndexError, c)
      | dim' # _ \<Rightarrow>
          (let (epsilon, c') = levi_civita_tensor dim' c
           in (einsum ''ijk,jl,kl->il''
                 [epsilon, first_vector_collection, second_vector_collection], c')))"

section \<open>Multi-indices in row-major order\<close>

lemma length_ndindex: "length (ndindex shp) = prod_list shp"
proof (induction shp)
  case Nil show ?case by simp
next
  case (Cons n ns)
  have "sum_list (map (\<lambda>i. prod_list ns) [0..<n]) = n * prod_list ns"
    by (simp add: sum_list_triv)
  with Cons show ?case by (simp add: length_concat comp_def)
qed

lemma concat_blocks_nth:
  assumes "\<And>j. j < n \<Longrightarrow> length (f j) = P" and "i < n" and "r < P"
  shows "concat (map f [0..<n]) ! (i * P + r) = f i ! r"
  using assms
proof (induction n)
  case 0 then show ?case by simp
next
  case (Suc n)
  have "sum_list (map (\<lambda>x. length (f x)) [0..<n]) = sum_list (map (\<lambda>x. P) [0..<n])"
    by (rule arg_cong[where f = sum_list]) (use Suc.prems(1) in simp)
  also have "\<dots> = n * P" by (simp add: sum_list_triv)
  finally have len: "length (concat (map f [0..<n])) = n * P"
    by (simp add: length_concat comp_def)
  show ?case
  proof (cases "i < n")
    case True
    then have "Suc i * P \<le> n * P" by (simp del: mult_Suc)
    then have "i * P + r < n * P"
      using Suc.prems(3) by simp
    with True Suc show ?thesis by (simp add: nth_append len)
  next
    case False
    with Suc.prems have "i = n" by simp
    then show ?thesis by (simp add: nth_append len)
  qed
qed

lemma set_ndindex: "idx \<in> set (ndindex shp) \<longleftrightarrow> in_range shp idx"
proof (induction shp arbitrary: idx)
  case Nil show ?case by (cases idx) auto
next
  case (Cons n ns) show ?case by (cases idx) (force simp: Cons)+
qed

lemma flat_index_less: "in_range shp idx \<Longrightarrow> flat_index shp idx < prod_list shp"
proof (induction shp idx rule: in_range.induct)
  case (2 n ns i "is")
  then have "i < n" and r: "flat_index ns is < prod_list ns" by simp_all
  then have "Suc i * prod_list ns \<le> n * prod_list ns" by (simp del: mult_Suc)
  with r show ?case by simp
qed simp_all

lemma ndindex_nth: "in_range shp idx \<Longrightarrow> ndindex shp ! flat_index shp idx = idx"
proof (induction shp idx rule: in_range.induct)
  case (2 n ns i "is")
  then have i: "i < n" and r: "flat_index ns is < prod_list ns" and ih: "ndindex ns ! flat_index ns is = is"
    by (simp_all add: flat_index_less)
  have "concat (map (\<lambda>i. map ((#) i) (ndindex ns)) [0..<n]) ! (i * prod_list ns + flat_index ns is)
      = map ((#) i) (ndindex ns) ! flat_index ns is"
    by (rule concat_blocks_nth) (use i r in \<open>simp_all add: length_ndindex\<close>)
  with r ih show ?case by (simp add: length_ndindex)
qed simp_all

lemma flat_index_inj:
  assumes "in_range shp idx" "in_range shp idx'" "flat_index shp idx = flat_index shp idx'"
  shows "idx = idx'"
  using assms ndindex_nth by metis

lemma map_ndindex_nth:
  "in_range shp idx \<Longrightarrow> map f (ndindex shp) ! flat_index shp idx = f idx"
  by (simp add: flat_index_less length_ndindex ndindex_nth)

lemma map_ndindex_cong:
  "(\<And>idx. in_range shp idx \<Longrightarrow> f idx = g idx) \<Longrightarrow> map f (ndindex shp) = map g (ndindex shp)"
  by (simp add: set_ndindex)


lemma flat_index_ndindex:
  "m < prod_list shp \<Longrightarrow> flat_index shp (ndindex shp ! m) = m"
proof (induction shp arbitrary: m)
  case Nil then show ?case by simp
next
  case (Cons n ns)
  let ?P = "prod_list ns"
  from Cons.prems have P: "0 < ?P" by (cases "?P = 0") simp_all
  have r: "m mod ?P < ?P" using P by simp
  have i: "m div ?P < n" using Cons.prems P
    by (simp add: less_mult_imp_div_less)
  have "ndindex (n # ns) ! (m div ?P * ?P + m mod ?P) = map ((#) (m div ?P)) (ndindex ns) ! (m mod ?P)"
    unfolding ndindex.simps
    by (rule concat_blocks_nth) (use i r in \<open>simp_all add: length_ndindex\<close>)
  then have "ndindex (n # ns) ! m = (m div ?P) # (ndindex ns ! (m mod ?P))"
    using r by (simp add: length_ndindex)
  then show ?case using Cons.IH[OF r] by simp
qed

lemma in_range_ndindex: "m < prod_list shp \<Longrightarrow> in_range shp (ndindex shp ! m)"
  using set_ndindex[of "ndindex shp ! m" shp] by (simp add: length_ndindex)

lemma ndarray_eqI:
  assumes "wf_array a" "wf_array b" "shape a = shape b"
    and "\<And>idx. in_range (shape a) idx \<Longrightarrow> item a idx = item b idx"
  shows "a = b"
proof -
  have len: "length (data a) = length (data b)"
    using assms(1-3) by (simp add: wf_array_def)
  have "data a ! m = data b ! m" if "m < length (data a)" for m
  proof -
    from that assms(1) have m: "m < prod_list (shape a)" by (simp add: wf_array_def)
    have "item a (ndindex (shape a) ! m) = item b (ndindex (shape a) ! m)"
      by (rule assms(4)) (rule in_range_ndindex[OF m])
    then show ?thesis
      using flat_index_ndindex[OF m] assms(3) by (simp add: item_def)
  qed
  with len have "data a = data b" by (rule nth_equalityI)
  with assms(3) show ?thesis by simp
qed

lemma broadcast_dim_same [simp]: "broadcast_dim n n = Some n" "broadcast_dim n (Suc 0) = Some n"
  by (simp_all add: broadcast_dim_def)

lemma in_range_Cons_iff: "in_range (n # ns) idx \<longleftrightarrow> (\<exists>i is. idx = i # is \<and> i < n \<and> in_range ns is)"
  by (cases idx) auto

lemma in_range_Nil_iff: "in_range [] idx \<longleftrightarrow> idx = []"
  by (cases idx) auto

lemma sum_list_ndindex1: "sum_list (map f (ndindex [q])) = (\<Sum>j<q. f [j])"
  by (simp add: comp_def interv_sum_list_conv_sum_set_nat atLeast0LessThan)

lemma batch_matvec_eq:
  assumes "shape M = [p, q, n]" "shape v = [q, n]"
  shows "batch_matvec M v = Inr \<lparr>shape = [p, n],
      data = map (\<lambda>oi. \<Sum>j<q. item M [oi ! 0, j, oi ! 1] * item v [j, oi ! 1]) (ndindex [p, n])\<rparr>"
proof -
  have "(\<Sum>si\<leftarrow>ndindex [q]. item M (operand_index (zip ''ikj'' (oi @ si)) ''ijk'' M) *
            item v (operand_index (zip ''ikj'' (oi @ si)) ''jk'' v))
        = (\<Sum>j<q. item M [oi ! 0, j, oi ! 1] * item v [j, oi ! 1])"
    if "in_range [p, n] oi" for oi
  proof -
    from that obtain i k where oi: "oi = [i, k]" "i < p" "k < n"
      by (auto simp: in_range_Cons_iff in_range_Nil_iff)
    show ?thesis unfolding sum_list_ndindex1
      by (rule sum.cong) (use oi assms in \<open>auto simp: operand_index_def\<close>)
  qed
  then show ?thesis
    using assms
    by (simp add: batch_matvec_def einsum_def parse_subscripts_def label_dims_def Let_def
          set_ndindex del: ndindex.simps cong: map_cong)
qed

lemma sum_list_concat_real: "sum_list (concat xss) = (\<Sum>xs\<leftarrow>xss. sum_list xs :: real)"
  by (induction xss) simp_all

lemma sum_list_ndindex_Cons:
  "sum_list (map f (ndindex (n # ns))) = (\<Sum>i<n. sum_list (map (\<lambda>is. f (i # is)) (ndindex ns)) :: real)"
proof -
  have "sum_list (map f (ndindex (n # ns)))
      = sum_list (concat (map (\<lambda>i. map (\<lambda>is. f (i # is)) (ndindex ns)) [0..<n]))"
    by (simp add: map_concat comp_def)
  also have "\<dots> = (\<Sum>i\<leftarrow>[0..<n]. sum_list (map (\<lambda>is. f (i # is)) (ndindex ns)))"
    unfolding sum_list_concat_real by (simp add: comp_def)
  also have "\<dots> = (\<Sum>i<n. sum_list (map (\<lambda>is. f (i # is)) (ndindex ns)))"
    by (simp add: interv_sum_list_conv_sum_set_nat atLeast0LessThan)
  finally show ?thesis .
qed

lemma sum_list_ndindex2:
  "sum_list (map f (ndindex [b, c])) = (\<Sum>j<b. \<Sum>k<c. f [j, k] :: real)"
  by (simp add: sum_list_ndindex_Cons del: ndindex.simps(2))

lemma batch_matmul_eq:
  assumes "shape A = [p, q, n]" "shape B = [q, r, n]"
  shows "batch_matmul A B = Inr \<lparr>shape = [p, r, n],
      data = map (\<lambda>oi. \<Sum>j<q. item A [oi ! 0, j, oi ! 2] * item B [j, oi ! 1, oi ! 2]) (ndindex [p, r, n])\<rparr>"
proof -
  have "(\<Sum>si\<leftarrow>ndindex [q]. item A (operand_index (zip ''ilkj'' (oi @ si)) ''ijk'' A) *
            item B (operand_index (zip ''ilkj'' (oi @ si)) ''jlk'' B))
        = (\<Sum>j<q. item A [oi ! 0, j, oi ! 2] * item B [j, oi ! 1, oi ! 2])"
    if "in_range [p, r, n] oi" for oi
  proof -
    from that obtain i l k where oi: "oi = [i, l, k]" "i < p" "l < r" "k < n"
      by (auto simp: in_range_Cons_iff in_range_Nil_iff)
    show ?thesis unfolding sum_list_ndindex1
      by (rule sum.cong) (use oi assms in \<open>auto simp: operand_index_def\<close>)
  qed
  then show ?thesis
    using assms
    by (simp add: batch_matmul_def einsum_def parse_subscripts_def label_dims_def Let_def
          set_ndindex del: ndindex.simps cong: map_cong)
qed

lemma einsum_cross_eq:
  assumes "shape eps = [a, b, c]" "shape u = [b, n]" "shape v = [c, n]"
  shows "einsum ''ijk,jl,kl->il'' [eps, u, v] = Inr \<lparr>shape = [a, n],
      data = map (\<lambda>oi. \<Sum>j<b. \<Sum>k<c. item eps [oi ! 0, j, k] * item u [j, oi ! 1] * item v [k, oi ! 1])
                 (ndindex [a, n])\<rparr>"
proof -
  have "(\<Sum>si\<leftarrow>ndindex [b, c]. item eps (operand_index (zip ''iljk'' (oi @ si)) ''ijk'' eps) *
            (item u (operand_index (zip ''iljk'' (oi @ si)) ''jl'' u) *
            item v (operand_index (zip ''iljk'' (oi @ si)) ''kl'' v)))
        = (\<Sum>j<b. \<Sum>k<c. item eps [oi ! 0, j, k] * item u [j, oi ! 1] * item v [k, oi ! 1])"
    if "in_range [a, n] oi" for oi
  proof -
    from that obtain i l where oi: "oi = [i, l]" "i < a" "l < n"
      by (auto simp: in_range_Cons_iff in_range_Nil_iff)
    show ?thesis unfolding sum_list_ndindex2
      by (intro sum.cong refl) (use oi assms in \<open>auto simp: operand_index_def\<close>)
  qed
  then show ?thesis
    using assms
    by (simp add: einsum_def parse_subscripts_def label_dims_def Let_def
          set_ndindex del: ndindex.simps cong: map_cong)
qed

section \<open>The contractions, entry by entry\<close>

lemma wf_array_map_ndindex: "wf_array \<lparr>shape = shp, data = map f (ndindex shp)\<rparr>"
  by (simp add: wf_array_def length_ndindex)

lemma item_map_ndindex:
  "in_range shp idx \<Longrightarrow> item \<lparr>shape = shp, data = map f (ndindex shp)\<rparr> idx = f idx"
  by (simp add: item_def map_ndindex_nth)

lemma batch_matvec_items:
  assumes "shape M = [p, q, n]" "shape v = [q, n]"
  shows "\<exists>out. batch_matvec M v = Inr out \<and> shape out = [p, n] \<and> wf_array out \<and>
           (\<forall>i<p. \<forall>k<n. item out [i, k] = (\<Sum>j<q. item M [i, j, k] * item v [j, k]))"
  unfolding batch_matvec_eq[OF assms]
  by (simp add: wf_array_map_ndindex item_map_ndindex del: ndindex.simps)

lemma batch_matmul_items:
  assumes "shape A = [p, q, n]" "shape B = [q, r, n]"
  shows "\<exists>out. batch_matmul A B = Inr out \<and> shape out = [p, r, n] \<and> wf_array out \<and>
           (\<forall>i<p. \<forall>l<r. \<forall>k<n. item out [i, l, k] = (\<Sum>j<q. item A [i, j, k] * item B [j, l, k]))"
  unfolding batch_matmul_eq[OF assms]
  by (simp add: wf_array_map_ndindex item_map_ndindex del: ndindex.simps)

lemma einsum_cross_items:
  assumes "shape eps = [a, b, c]" "shape u = [b, n]" "shape v = [c, n]"
  shows "\<exists>out. einsum ''ijk,jl,kl->il'' [eps, u, v] = Inr out \<and> shape out = [a, n] \<and> wf_array out \<and>
           (\<forall>i<a. \<forall>l<n. item out [i, l] =
              (\<Sum>j<b. \<Sum>k<c. item eps [i, j, k] * item u [j, l] * item v [k, l]))"
  unfolding einsum_cross_eq[OF assms]
  by (simp add: wf_array_map_ndindex item_map_ndindex del: ndindex.simps)

section \<open>Matrix-vector product\<close>

text \<open>
  C3: for a matrix batch of shape \<open>(d, d, N)\<close> and a vector batch of shape \<open>(d, N)\<close>,
  \<^verbatim>\<open>batch_matvec\<close> returns a vector batch of shape \<open>(d, N)\<close> whose entry \<open>[i, k]\<close>
  is the sum over \<open>j\<close> of \<open>matrices[i, j, k] * vectors[j, k]\<close>: the matrix-vector product
  of every slot \<open>k\<close> on its own.
\<close>

theorem batch_matvec_correct:
  assumes "wf_array matrices" "wf_array vectors"
    and "shape matrices = [d, d, N]" "shape vectors = [d, N]"
  shows "\<exists>out. batch_matvec matrices vectors = Inr out \<and> shape out = [d, N] \<and> wf_array out \<and>
           (\<forall>i<d. \<forall>k<N. item out [i, k] = (\<Sum>j<d. item matrices [i, j, k] * item vectors [j, k]))"
  using assms(3,4) by (rule batch_matvec_items)

theorem batch_matvec_correct_witness:
  "wf_array \<lparr>shape = [2, 2, 1], data = [1, 2, 3, 4]\<rparr> \<and> wf_array \<lparr>shape = [2, 1], data = [5, 6]\<rparr>
   \<and> batch_matvec \<lparr>shape = [2, 2, 1], data = [1, 2, 3, 4]\<rparr> \<lparr>shape = [2, 1], data = [5, 6]\<rparr>
       = Inr \<lparr>shape = [2, 1], data = [17, 39]\<rparr>
   \<and> item \<lparr>shape = [2, 1], data = [17, 39]\<rparr> [1, 0]
       = (\<Sum>j<2. item \<lparr>shape = [2, 2, 1], data = [1, 2, 3, 4]\<rparr> [1, j, 0]
                 * item \<lparr>shape = [2, 1], data = [5, 6]\<rparr> [j, 0])"
proof -
  have w1: "wf_array \<lparr>shape = [2, 2, 1], data = [1, 2, 3, 4]\<rparr>" by (simp add: wf_array_def)
  have w2: "wf_array \<lparr>shape = [2, 1], data = [5, 6]\<rparr>" by (simp add: wf_array_def)
  have e: "batch_matvec \<lparr>shape = [2, 2, 1], data = [1, 2, 3, 4]\<rparr> \<lparr>shape = [2, 1], data = [5, 6]\<rparr>
       = Inr \<lparr>shape = [2, 1], data = [17, 39]\<rparr>" by code_simp
  from batch_matvec_correct[OF w1 w2, of 2 1] e
  have "\<forall>i<2. \<forall>k<1. item \<lparr>shape = [2, 1], data = [17, 39]\<rparr> [i, k]
       = (\<Sum>j<2. item \<lparr>shape = [2, 2, 1], data = [1, 2, 3, 4]\<rparr> [i, j, k]
                 * item \<lparr>shape = [2, 1], data = [5, 6]\<rparr> [j, k])"
    by auto
  then have "item \<lparr>shape = [2, 1], data = [17, 39]\<rparr> [1, 0]
       = (\<Sum>j<2. item \<lparr>shape = [2, 2, 1], data = [1, 2, 3, 4]\<rparr> [1, j, 0]
                 * item \<lparr>shape = [2, 1], data = [5, 6]\<rparr> [j, 0])"
    by simp
  with w1 w2 e show ?thesis by simp
qed

text \<open>
  C9: \<^verbatim>\<open>batch_matvec\<close> does not require the first two axes of the matrix batch to be
  equal. For matrices of shape \<open>(p, q, N)\<close> with \<open>p \<noteq> q\<close> and vectors of shape \<open>(q, N)\<close>
  the call succeeds and returns an array of shape \<open>(p, N)\<close> whose entry \<open>[i, k]\<close> is the
  sum over \<open>j\<close> of \<open>matrices[i, j, k] * vectors[j, k]\<close>.
\<close>

theorem batch_matvec_rectangular:
  assumes "wf_array matrix_collection" "wf_array vector_collection"
    and "shape matrix_collection = [p, q, N]" "shape vector_collection = [q, N]" "p \<noteq> q"
  shows "\<exists>out. batch_matvec matrix_collection vector_collection = Inr out \<and> shape out = [p, N]
           \<and> wf_array out \<and>
           (\<forall>i<p. \<forall>k<N. item out [i, k] =
              (\<Sum>j<q. item matrix_collection [i, j, k] * item vector_collection [j, k]))"
  using assms(3,4) by (rule batch_matvec_items)

theorem batch_matvec_rectangular_witness:
  "wf_array \<lparr>shape = [2, 3, 1], data = [1, 2, 3, 4, 5, 6]\<rparr> \<and> wf_array \<lparr>shape = [3, 1], data = [1, 10, 100]\<rparr>
   \<and> (2::nat) \<noteq> 3
   \<and> batch_matvec \<lparr>shape = [2, 3, 1], data = [1, 2, 3, 4, 5, 6]\<rparr> \<lparr>shape = [3, 1], data = [1, 10, 100]\<rparr>
       = Inr \<lparr>shape = [2, 1], data = [321, 654]\<rparr>
   \<and> item \<lparr>shape = [2, 1], data = [321, 654]\<rparr> [1, 0]
       = (\<Sum>j<3. item \<lparr>shape = [2, 3, 1], data = [1, 2, 3, 4, 5, 6]\<rparr> [1, j, 0]
                 * item \<lparr>shape = [3, 1], data = [1, 10, 100]\<rparr> [j, 0])"
proof -
  have w1: "wf_array \<lparr>shape = [2, 3, 1], data = [1, 2, 3, 4, 5, 6]\<rparr>" by (simp add: wf_array_def)
  have w2: "wf_array \<lparr>shape = [3, 1], data = [1, 10, 100]\<rparr>" by (simp add: wf_array_def)
  have e: "batch_matvec \<lparr>shape = [2, 3, 1], data = [1, 2, 3, 4, 5, 6]\<rparr> \<lparr>shape = [3, 1], data = [1, 10, 100]\<rparr>
       = Inr \<lparr>shape = [2, 1], data = [321, 654]\<rparr>" by code_simp
  from batch_matvec_rectangular[OF w1 w2, of 2 3 1] e
  have "\<forall>i<2. \<forall>k<1. item \<lparr>shape = [2, 1], data = [321, 654]\<rparr> [i, k]
       = (\<Sum>j<3. item \<lparr>shape = [2, 3, 1], data = [1, 2, 3, 4, 5, 6]\<rparr> [i, j, k]
                 * item \<lparr>shape = [3, 1], data = [1, 10, 100]\<rparr> [j, k])"
    by auto
  then have "item \<lparr>shape = [2, 1], data = [321, 654]\<rparr> [1, 0]
       = (\<Sum>j<3. item \<lparr>shape = [2, 3, 1], data = [1, 2, 3, 4, 5, 6]\<rparr> [1, j, 0]
                 * item \<lparr>shape = [3, 1], data = [1, 10, 100]\<rparr> [j, 0])"
    by simp
  with w1 w2 e show ?thesis by simp
qed

section \<open>Matrix-matrix product\<close>

text \<open>
  C4: for two matrix batches of shape \<open>(d, d, N)\<close>, \<^verbatim>\<open>batch_matmul\<close> returns a matrix
  batch of shape \<open>(d, d, N)\<close> whose entry \<open>[i, l, k]\<close> is the sum over \<open>j\<close> of
  \<open>A[i, j, k] * B[j, l, k]\<close>: the matrix product of every slot \<open>k\<close> on its own.
\<close>

theorem batch_matmul_correct:
  assumes "wf_array A" "wf_array B"
    and "shape A = [d, d, N]" "shape B = [d, d, N]"
  shows "\<exists>out. batch_matmul A B = Inr out \<and> shape out = [d, d, N] \<and> wf_array out \<and>
           (\<forall>i<d. \<forall>l<d. \<forall>k<N. item out [i, l, k] = (\<Sum>j<d. item A [i, j, k] * item B [j, l, k]))"
  using assms(3,4) by (rule batch_matmul_items)

theorem batch_matmul_correct_witness:
  "wf_array \<lparr>shape = [2, 2, 1], data = [1, 2, 3, 4]\<rparr> \<and> wf_array \<lparr>shape = [2, 2, 1], data = [5, 6, 7, 8]\<rparr>
   \<and> batch_matmul \<lparr>shape = [2, 2, 1], data = [1, 2, 3, 4]\<rparr> \<lparr>shape = [2, 2, 1], data = [5, 6, 7, 8]\<rparr>
       = Inr \<lparr>shape = [2, 2, 1], data = [19, 22, 43, 50]\<rparr>
   \<and> item \<lparr>shape = [2, 2, 1], data = [19, 22, 43, 50]\<rparr> [1, 0, 0]
       = (\<Sum>j<2. item \<lparr>shape = [2, 2, 1], data = [1, 2, 3, 4]\<rparr> [1, j, 0]
                 * item \<lparr>shape = [2, 2, 1], data = [5, 6, 7, 8]\<rparr> [j, 0, 0])"
proof -
  have w1: "wf_array \<lparr>shape = [2, 2, 1], data = [1, 2, 3, 4]\<rparr>" by (simp add: wf_array_def)
  have w2: "wf_array \<lparr>shape = [2, 2, 1], data = [5, 6, 7, 8]\<rparr>" by (simp add: wf_array_def)
  have e: "batch_matmul \<lparr>shape = [2, 2, 1], data = [1, 2, 3, 4]\<rparr> \<lparr>shape = [2, 2, 1], data = [5, 6, 7, 8]\<rparr>
       = Inr \<lparr>shape = [2, 2, 1], data = [19, 22, 43, 50]\<rparr>" by code_simp
  from batch_matmul_correct[OF w1 w2, of 2 1] e
  have "\<forall>i<2. \<forall>l<2. \<forall>k<1. item \<lparr>shape = [2, 2, 1], data = [19, 22, 43, 50]\<rparr> [i, l, k]
       = (\<Sum>j<2. item \<lparr>shape = [2, 2, 1], data = [1, 2, 3, 4]\<rparr> [i, j, k]
                 * item \<lparr>shape = [2, 2, 1], data = [5, 6, 7, 8]\<rparr> [j, l, k])"
    by auto
  then have "item \<lparr>shape = [2, 2, 1], data = [19, 22, 43, 50]\<rparr> [1, 0, 0]
       = (\<Sum>j<2. item \<lparr>shape = [2, 2, 1], data = [1, 2, 3, 4]\<rparr> [1, j, 0]
                 * item \<lparr>shape = [2, 2, 1], data = [5, 6, 7, 8]\<rparr> [j, 0, 0])"
    by simp
  with w1 w2 e show ?thesis by simp
qed

text \<open>
  C8: for matrix batches \<open>A\<close>, \<open>B\<close> of shape \<open>(d, d, N)\<close> and a vector batch \<open>v\<close> of shape
  \<open>(d, N)\<close>, all four calls succeed and
  \<^verbatim>\<open>batch_matvec(batch_matmul(A, B), v)\<close> equals \<^verbatim>\<open>batch_matvec(A, batch_matvec(B, v))\<close>,
  in exact arithmetic.
\<close>

theorem matvec_matmul_compose:
  assumes "wf_array A" "wf_array B" "wf_array v"
    and "shape A = [d, d, N]" "shape B = [d, d, N]" "shape v = [d, N]"
  shows "\<exists>AB Bv r. batch_matmul A B = Inr AB \<and> batch_matvec B v = Inr Bv
           \<and> batch_matvec AB v = Inr r \<and> batch_matvec A Bv = Inr r"
proof -
  from batch_matmul_items[OF assms(4,5)] obtain AB where
    AB: "batch_matmul A B = Inr AB" "shape AB = [d, d, N]"
      "\<And>i l k. i < d \<Longrightarrow> l < d \<Longrightarrow> k < N \<Longrightarrow>
         item AB [i, l, k] = (\<Sum>j<d. item A [i, j, k] * item B [j, l, k])"
    by blast
  from batch_matvec_items[OF assms(5,6)] obtain Bv where
    Bv: "batch_matvec B v = Inr Bv" "shape Bv = [d, N]"
      "\<And>i k. i < d \<Longrightarrow> k < N \<Longrightarrow> item Bv [i, k] = (\<Sum>j<d. item B [i, j, k] * item v [j, k])"
    by blast
  from batch_matvec_items[OF AB(2) assms(6)] obtain r where
    r: "batch_matvec AB v = Inr r" "shape r = [d, N]" "wf_array r"
      "\<And>i k. i < d \<Longrightarrow> k < N \<Longrightarrow> item r [i, k] = (\<Sum>j<d. item AB [i, j, k] * item v [j, k])"
    by blast
  from batch_matvec_items[OF assms(4) Bv(2)] obtain r' where
    r': "batch_matvec A Bv = Inr r'" "shape r' = [d, N]" "wf_array r'"
      "\<And>i k. i < d \<Longrightarrow> k < N \<Longrightarrow> item r' [i, k] = (\<Sum>j<d. item A [i, j, k] * item Bv [j, k])"
    by blast
  have "r' = r"
  proof (rule ndarray_eqI)
    fix idx assume "in_range (shape r') idx"
    then obtain i k where idx: "idx = [i, k]" "i < d" "k < N"
      by (auto simp: r'(2) in_range_Cons_iff in_range_Nil_iff)
    have "item r' [i, k] = (\<Sum>m<d. item A [i, m, k] * (\<Sum>j<d. item B [m, j, k] * item v [j, k]))"
      using idx by (simp add: r'(4) Bv(3))
    also have "\<dots> = (\<Sum>m<d. \<Sum>j<d. item A [i, m, k] * item B [m, j, k] * item v [j, k])"
      by (simp add: sum_distrib_left mult.assoc)
    also have "\<dots> = (\<Sum>j<d. \<Sum>m<d. item A [i, m, k] * item B [m, j, k] * item v [j, k])"
      by (rule sum.swap)
    also have "\<dots> = (\<Sum>j<d. (\<Sum>m<d. item A [i, m, k] * item B [m, j, k]) * item v [j, k])"
      by (simp add: sum_distrib_right)
    also have "\<dots> = item r [i, k]"
      using idx by (simp add: r(4) AB(3))
    finally show "item r' idx = item r idx" using idx by simp
  qed (simp_all add: r r')
  with AB(1) Bv(1) r(1) r'(1) show ?thesis by blast
qed

theorem matvec_matmul_compose_witness:
  "wf_array \<lparr>shape = [2, 2, 1], data = [1, 2, 3, 4]\<rparr>
   \<and> wf_array \<lparr>shape = [2, 2, 1], data = [5, 6, 7, 8]\<rparr>
   \<and> wf_array \<lparr>shape = [2, 1], data = [1, 1]\<rparr>
   \<and> batch_matvec \<lparr>shape = [2, 2, 1], data = [1, 2, 3, 4]\<rparr> \<lparr>shape = [2, 1], data = [11, 15]\<rparr>
       = Inr \<lparr>shape = [2, 1], data = [41, 93]\<rparr>
   \<and> (\<exists>AB Bv r.
         batch_matmul \<lparr>shape = [2, 2, 1], data = [1, 2, 3, 4]\<rparr> \<lparr>shape = [2, 2, 1], data = [5, 6, 7, 8]\<rparr> = Inr AB
       \<and> batch_matvec \<lparr>shape = [2, 2, 1], data = [5, 6, 7, 8]\<rparr> \<lparr>shape = [2, 1], data = [1, 1]\<rparr> = Inr Bv
       \<and> batch_matvec AB \<lparr>shape = [2, 1], data = [1, 1]\<rparr> = Inr r
       \<and> batch_matvec \<lparr>shape = [2, 2, 1], data = [1, 2, 3, 4]\<rparr> Bv = Inr r)"
proof -
  have w1: "wf_array \<lparr>shape = [2, 2, 1], data = [1, 2, 3, 4]\<rparr>" by (simp add: wf_array_def)
  have w2: "wf_array \<lparr>shape = [2, 2, 1], data = [5, 6, 7, 8]\<rparr>" by (simp add: wf_array_def)
  have w3: "wf_array \<lparr>shape = [2, 1], data = [1, 1]\<rparr>" by (simp add: wf_array_def)
  have e: "batch_matvec \<lparr>shape = [2, 2, 1], data = [1, 2, 3, 4]\<rparr> \<lparr>shape = [2, 1], data = [11, 15]\<rparr>
       = Inr \<lparr>shape = [2, 1], data = [41, 93]\<rparr>" by code_simp
  show ?thesis
    using w1 w2 w3 e matvec_matmul_compose[OF w1 w2 w3, of 2 1] by simp
qed

section \<open>The cache in front of the tensor\<close>

lemma after_calls_snoc:
  "after_calls (dims @ [d]) = snd (levi_civita_tensor d (after_calls dims))"
  by (simp add: after_calls_def)

lemma levi_civita_tensor_consistent:
  "cache_consistent c \<Longrightarrow> cache_consistent (snd (levi_civita_tensor d c))"
  by (auto simp: cache_consistent_def levi_civita_tensor_def lru_cache_call_def split: option.splits)

lemma after_calls_consistent: "cache_consistent (after_calls dims)"
proof (induction dims rule: rev_induct)
  case Nil show ?case by (simp add: after_calls_def cache_consistent_def empty_cache_def)
next
  case (snoc d dims) then show ?case
    by (simp add: after_calls_snoc levi_civita_tensor_consistent)
qed

lemma levi_civita_tensor_value:
  "cache_consistent c \<Longrightarrow> fst (levi_civita_tensor d c) = levi_civita_tensor_wrapped d"
  by (auto simp: cache_consistent_def levi_civita_tensor_def lru_cache_call_def split: option.splits)

lemma levi_civita_tensor_after_calls:
  "fst (levi_civita_tensor d (after_calls dims)) = levi_civita_tensor_wrapped d"
  by (simp add: levi_civita_tensor_value after_calls_consistent)

lemma slot_after_call: "slot (snd (levi_civita_tensor d c)) = Some (d, fst (levi_civita_tensor d c))"
  by (auto simp: levi_civita_tensor_def lru_cache_call_def split: option.splits)

lemma levi_civita_tensor_hit:
  "slot c = Some (d, t) \<Longrightarrow> levi_civita_tensor d c = (t, c\<lparr>hits := hits c + 1\<rparr>)"
  by (simp add: levi_civita_tensor_def lru_cache_call_def)

lemma levi_civita_tensor_miss:
  "slot c = Some (k, t) \<Longrightarrow> k \<noteq> d \<Longrightarrow>
   levi_civita_tensor d c
     = (levi_civita_tensor_wrapped d,
        c\<lparr>slot := Some (d, levi_civita_tensor_wrapped d), misses := misses c + 1\<rparr>)"
  by (simp add: levi_civita_tensor_def lru_cache_call_def)

text \<open>
  C6: the tensor returned for \<open>d\<close> does not depend on the requests made before: after any
  history it is the tensor the body builds for \<open>d\<close>. A second request for the same \<open>d\<close>
  is a hit: it returns the tensor built by the first one and changes nothing but the hit
  counter. After a request for \<open>d\<close> and one for a different \<open>d2\<close>, a request for \<open>d\<close> is a
  miss, which builds the tensor again, and the result is identical to the first.
\<close>

theorem levi_civita_tensor_history_independent:
  "fst (levi_civita_tensor d (after_calls history)) = levi_civita_tensor_wrapped d
   \<and> levi_civita_tensor d (after_calls (history @ [d]))
       = (fst (levi_civita_tensor d (after_calls history)),
          (after_calls (history @ [d]))\<lparr>hits := hits (after_calls (history @ [d])) + 1\<rparr>)
   \<and> (d2 \<noteq> d \<longrightarrow>
        fst (levi_civita_tensor d (after_calls (history @ [d, d2])))
          = fst (levi_civita_tensor d (after_calls history))
        \<and> misses (snd (levi_civita_tensor d (after_calls (history @ [d, d2]))))
          = misses (after_calls (history @ [d, d2])) + 1)"
proof (intro conjI impI)
  show "fst (levi_civita_tensor d (after_calls history)) = levi_civita_tensor_wrapped d"
    by (rule levi_civita_tensor_after_calls)
  show "levi_civita_tensor d (after_calls (history @ [d]))
       = (fst (levi_civita_tensor d (after_calls history)),
          (after_calls (history @ [d]))\<lparr>hits := hits (after_calls (history @ [d])) + 1\<rparr>)"
    unfolding after_calls_snoc
    by (rule levi_civita_tensor_hit) (rule slot_after_call)
  show "fst (levi_civita_tensor d (after_calls (history @ [d, d2])))
          = fst (levi_civita_tensor d (after_calls history))"
    by (simp add: levi_civita_tensor_after_calls)
  assume "d2 \<noteq> d"
  moreover have "slot (after_calls (history @ [d, d2]))
      = Some (d2, fst (levi_civita_tensor d2 (after_calls (history @ [d]))))"
    using slot_after_call[of d2 "after_calls (history @ [d])"] after_calls_snoc[of "history @ [d]" d2]
    by simp
  ultimately show "misses (snd (levi_civita_tensor d (after_calls (history @ [d, d2]))))
          = misses (after_calls (history @ [d, d2])) + 1"
    by (simp add: levi_civita_tensor_miss)
qed

theorem levi_civita_tensor_history_independent_witness:
  "(2::nat) \<noteq> 3
   \<and> fst (levi_civita_tensor 3 (after_calls [])) = levi_civita_tensor_wrapped 3
   \<and> levi_civita_tensor_wrapped 2 = \<lparr>shape = [2, 2], data = [0, 1, - 1, 0]\<rparr>
   \<and> fst (levi_civita_tensor 3 (after_calls [3, 2])) = fst (levi_civita_tensor 3 (after_calls []))
   \<and> misses (snd (levi_civita_tensor 3 (after_calls [3, 2]))) = misses (after_calls [3, 2]) + 1"
proof -
  have e: "levi_civita_tensor_wrapped 2 = \<lparr>shape = [2, 2], data = [0, 1, - 1, 0]\<rparr>"
    by code_simp
  show ?thesis
    using e levi_civita_tensor_history_independent[of 3 "[]" 2] by simp
qed

section \<open>Permutations and their parity\<close>

lemma in_range_replicate:
  "in_range (replicate m d) idx \<longleftrightarrow> length idx = m \<and> (\<forall>x\<in>set idx. x < d)"
proof (induction m arbitrary: idx)
  case 0 show ?case by (cases idx) auto
next
  case (Suc m) show ?case by (cases idx) (auto simp: Suc)
qed

lemma remove_nth_distinct:
  assumes "distinct pool" "i < length pool"
  shows "distinct (take i pool @ drop (Suc i) pool)"
    and "set (take i pool @ drop (Suc i) pool) = set pool - {pool ! i}"
proof -
  have split: "pool = take i pool @ pool ! i # drop (Suc i) pool"
    using assms(2) by (rule id_take_nth_drop)
  with assms(1) have d: "distinct (take i pool @ pool ! i # drop (Suc i) pool)" by simp
  then show "distinct (take i pool @ drop (Suc i) pool)" by auto
  have "set pool = set (take i pool) \<union> {pool ! i} \<union> set (drop (Suc i) pool)"
    by (subst split) auto
  moreover from d have "pool ! i \<notin> set (take i pool)" "pool ! i \<notin> set (drop (Suc i) pool)"
    by auto
  ultimately show "set (take i pool @ drop (Suc i) pool) = set pool - {pool ! i}"
    by auto
qed

lemma set_permutations:
  "distinct pool \<Longrightarrow>
   set (permutations pool r) = {p. length p = r \<and> distinct p \<and> set p \<subseteq> set pool}"
proof (induction r arbitrary: pool)
  case 0 show ?case by auto
next
  case (Suc r)
  have step: "set (permutations (take i pool @ drop (Suc i) pool) r)
      = {p. length p = r \<and> distinct p \<and> set p \<subseteq> set pool - {pool ! i}}"
    if "i < length pool" for i
    using Suc.IH[OF remove_nth_distinct(1)[OF Suc.prems that]]
      remove_nth_distinct(2)[OF Suc.prems that] by simp
  show ?case
  proof (intro set_eqI iffI)
    fix q assume "q \<in> set (permutations pool (Suc r))"
    then obtain i p where i: "i < length pool" and q: "q = pool ! i # p"
      and p: "p \<in> set (permutations (take i pool @ drop (Suc i) pool) r)"
      by auto
    from p step[OF i] have "length p = r" "distinct p" "set p \<subseteq> set pool - {pool ! i}"
      by auto
    with i q show "q \<in> {p. length p = Suc r \<and> distinct p \<and> set p \<subseteq> set pool}"
      by auto
  next
    fix q assume "q \<in> {p. length p = Suc r \<and> distinct p \<and> set p \<subseteq> set pool}"
    then obtain x p where q: "q = x # p" and p: "length p = r" "distinct p" "x \<notin> set p"
      and sub: "x \<in> set pool" "set p \<subseteq> set pool"
      by (cases q) auto
    from sub(1) obtain i where i: "i < length pool" "pool ! i = x"
      by (auto simp: in_set_conv_nth)
    from p sub(2) i have "p \<in> set (permutations (take i pool @ drop (Suc i) pool) r)"
      using step[OF i(1)] by auto
    with i q show "q \<in> set (permutations pool (Suc r))"
      by auto
  qed
qed

lemma set_permutations_upt:
  "idx \<in> set (permutations [0..<d] d) \<longleftrightarrow> in_range (replicate d d) idx \<and> distinct idx"
  by (auto simp: set_permutations in_range_replicate)

lemma fold_update_length:
  "length (fold (\<lambda>p xs. xs[f p := g p]) ps xs) = length xs"
  by (induction ps arbitrary: xs) simp_all

lemma fold_update_other:
  "m \<notin> f ` set ps \<Longrightarrow> fold (\<lambda>p xs. xs[f p := g p]) ps xs ! m = xs ! m"
  by (induction ps arbitrary: xs) auto

lemma fold_update_hit:
  assumes "p \<in> set ps" "inj_on f (set ps)" "f p < length xs"
  shows "fold (\<lambda>p xs. xs[f p := g p]) ps xs ! f p = g p"
  using assms
proof (induction ps arbitrary: xs)
  case Nil then show ?case by simp
next
  case (Cons q ps)
  show ?case
  proof (cases "p \<in> set ps")
    case True
    with Cons show ?thesis by simp
  next
    case False
    with Cons.prems have [simp]: "q = p" and "f p \<notin> f ` set ps"
      by (auto simp: inj_on_def)
    then show ?thesis using Cons.prems(3) by (simp add: fold_update_other)
  qed
qed

lemma fold_setitem:
  "fold (\<lambda>p e. setitem e p (g p)) ps e
     = e\<lparr>data := fold (\<lambda>p xs. xs[flat_index (shape e) p := g p]) ps (data e)\<rparr>"
  by (induction ps arbitrary: e) (simp_all add: setitem_def)

lemma shape_levi_civita_tensor_wrapped: "shape (levi_civita_tensor_wrapped d) = replicate d d"
  by (simp add: levi_civita_tensor_wrapped_def fold_setitem zeros_def)

lemma wf_levi_civita_tensor_wrapped: "wf_array (levi_civita_tensor_wrapped d)"
  by (simp add: levi_civita_tensor_wrapped_def fold_setitem zeros_def wf_array_def fold_update_length)

lemma item_levi_civita_tensor_wrapped:
  assumes "in_range (replicate d d) idx"
  shows "item (levi_civita_tensor_wrapped d) idx
           = (if distinct idx then real_of_int (perm_parity idx) else 0)"
proof -
  let ?f = "flat_index (replicate d d)"
  let ?ps = "permutations [0..<d] d"
  have data: "item (levi_civita_tensor_wrapped d) idx
      = fold (\<lambda>p xs. xs[?f p := real_of_int (perm_parity p)]) ?ps (replicate (prod_list (replicate d d)) 0) ! ?f idx"
    by (simp add: levi_civita_tensor_wrapped_def fold_setitem zeros_def item_def)
  have inj: "inj_on ?f (set ?ps)"
    by (rule inj_onI) (auto simp: set_permutations_upt intro: flat_index_inj)
  have less: "?f idx < prod_list (replicate d d)"
    using assms by (rule flat_index_less)
  show ?thesis
  proof (cases "distinct idx")
    case True
    with assms have "idx \<in> set ?ps" by (simp add: set_permutations_upt)
    then have "fold (\<lambda>p xs. xs[?f p := real_of_int (perm_parity p)]) ?ps
        (replicate (prod_list (replicate d d)) 0) ! ?f idx = real_of_int (perm_parity idx)"
      using inj less
      by (intro fold_update_hit[where f = ?f and g = "\<lambda>p. real_of_int (perm_parity p)"]) simp_all
    with True show ?thesis unfolding data by simp
  next
    case False
    have "?f idx \<notin> ?f ` set ?ps"
    proof
      assume "?f idx \<in> ?f ` set ?ps"
      then obtain p where p: "p \<in> set ?ps" "?f p = ?f idx" by auto
      with assms have "p = idx" by (auto simp: set_permutations_upt intro: flat_index_inj)
      with p False show False by (simp add: set_permutations_upt)
    qed
    then have "fold (\<lambda>p xs. xs[?f p := real_of_int (perm_parity p)]) ?ps
        (replicate (prod_list (replicate d d)) 0) ! ?f idx
        = replicate (prod_list (replicate d d)) 0 ! ?f idx"
      by (rule fold_update_other[where f = ?f and g = "\<lambda>p. real_of_int (perm_parity p)"])
    with False less show ?thesis unfolding data by simp
  qed
qed

lemma perm_parity_append:
  "perm_parity (xs @ ys)
     = perm_parity xs * perm_parity ys * (\<Prod>x\<leftarrow>xs. \<Prod>y\<leftarrow>ys. if y < x then - 1 else 1)"
  by (induction xs) (simp_all add: ac_simps)

lemma inversions_flip:
  fixes x :: nat
  shows "x \<notin> set ys \<Longrightarrow>
   (\<Prod>y\<leftarrow>ys. if y < x then - 1 else 1)
     = (- 1) ^ length ys * (\<Prod>y\<leftarrow>ys. if x < y then - 1 else (1::int))"
  by (induction ys) auto

lemma prod_list_mult_distrib:
  "(\<Prod>x\<leftarrow>xs. f x * g x) = (\<Prod>x\<leftarrow>xs. f x) * (\<Prod>x\<leftarrow>xs. g x :: int)"
  by (induction xs) (simp_all add: ac_simps)

lemma prod_list_ones: "(\<Prod>x\<leftarrow>xs. 1) = (1::int)"
  by (induction xs) simp_all

lemma perm_parity_swap_ends:
  assumes "a \<noteq> b" "a \<notin> set B" "b \<notin> set B"
  shows "perm_parity (a # B @ b # C) = - perm_parity (b # B @ a # C)"
proof -
  let ?n = "(- 1) ^ length B :: int"
  let ?Ta = "\<Prod>y\<leftarrow>B. if a < y then - 1 else (1::int)"
  let ?Tb = "\<Prod>y\<leftarrow>B. if b < y then - 1 else (1::int)"
  let ?Ia = "\<Prod>y\<leftarrow>C. if y < a then - 1 else (1::int)"
  let ?Ib = "\<Prod>y\<leftarrow>C. if y < b then - 1 else (1::int)"
  let ?X = "\<Prod>x\<leftarrow>B. \<Prod>y\<leftarrow>C. if y < x then - 1 else (1::int)"
  have L: "perm_parity (a # B @ b # C)
      = (if b < a then - 1 else 1) * (?n * ?Ta * ?Tb * ?Ia * ?Ib * ?X * perm_parity B * perm_parity C)"
    by (simp add: perm_parity_append prod_list_mult_distrib inversions_flip[OF assms(2)] ac_simps)
  have R: "perm_parity (b # B @ a # C)
      = (if a < b then - 1 else 1) * (?n * ?Ta * ?Tb * ?Ia * ?Ib * ?X * perm_parity B * perm_parity C)"
    by (simp add: perm_parity_append prod_list_mult_distrib inversions_flip[OF assms(3)] ac_simps)
  from assms(1) have "(if b < a then - 1 else 1) = - (if a < b then - 1 else (1::int))"
    by auto
  then show ?thesis unfolding L R by simp
qed

lemma perm_parity_swap_inner:
  assumes "a \<noteq> b" "a \<notin> set B" "b \<notin> set B"
  shows "perm_parity (A @ a # B @ b # C) = - perm_parity (A @ b # B @ a # C)"
proof -
  have "(\<Prod>x\<leftarrow>A. \<Prod>y\<leftarrow>a # B @ b # C. if y < x then - 1 else (1::int))
      = (\<Prod>x\<leftarrow>A. \<Prod>y\<leftarrow>b # B @ a # C. if y < x then - 1 else 1)"
    by (rule arg_cong[where f = prod_list]) (simp add: ac_simps)
  then show ?thesis
    unfolding perm_parity_append[of A] perm_parity_swap_ends[OF assms] by simp
qed

lemma swap_decomposed:
  "(A @ a # B @ b # C)[length A := b, Suc (length A + length B) := a] = A @ b # B @ a # C"
  by (simp add: list_update_append)

lemma perm_parity_swap_less:
  assumes "distinct xs" "i < j" "j < length xs"
  shows "perm_parity (xs[i := xs ! j, j := xs ! i]) = - perm_parity xs"
proof -
  define A where "A = take i xs"
  define rest where "rest = drop (Suc i) xs"
  define B where "B = take (j - Suc i) rest"
  define C where "C = drop (Suc (j - Suc i)) rest"
  have i: "i < length xs" using assms by simp
  have j': "j - Suc i < length rest" using assms by (simp add: rest_def)
  have xs1: "xs = A @ xs ! i # rest"
    unfolding A_def rest_def using i by (rule id_take_nth_drop)
  have b: "rest ! (j - Suc i) = xs ! j" using assms by (simp add: rest_def)
  have rest: "rest = B @ xs ! j # C"
    unfolding B_def C_def using id_take_nth_drop[OF j'] b by simp
  have xs: "xs = A @ xs ! i # B @ xs ! j # C"
    using xs1 rest by simp
  have len: "length A = i" "length B = j - Suc i"
    using i j' by (simp_all add: A_def B_def)
  from assms(1) have "distinct (A @ xs ! i # B @ xs ! j # C)"
    using xs by simp
  then have ne: "xs ! i \<noteq> xs ! j" "xs ! i \<notin> set B" "xs ! j \<notin> set B"
    by auto
  have "xs[i := xs ! j, j := xs ! i] = (A @ xs ! i # B @ xs ! j # C)[i := xs ! j, j := xs ! i]"
    using xs by simp
  also have "\<dots> = A @ xs ! j # B @ xs ! i # C"
    using swap_decomposed[of A "xs ! i" B "xs ! j" C] len assms(2) by simp
  finally have "perm_parity (xs[i := xs ! j, j := xs ! i]) = perm_parity (A @ xs ! j # B @ xs ! i # C)"
    by simp
  also have "\<dots> = - perm_parity (A @ xs ! i # B @ xs ! j # C)"
    using perm_parity_swap_inner[OF ne] by simp
  finally show ?thesis using xs by simp
qed

lemma perm_parity_swap:
  assumes "distinct xs" "i < length xs" "j < length xs" "i \<noteq> j"
  shows "perm_parity (xs[i := xs ! j, j := xs ! i]) = - perm_parity xs"
proof (cases "i < j")
  case True with assms show ?thesis by (simp add: perm_parity_swap_less)
next
  case False
  with assms have "j < i" by simp
  moreover have "xs[i := xs ! j, j := xs ! i] = xs[j := xs ! i, i := xs ! j]"
    using assms(4) by (simp add: list_update_swap)
  ultimately show ?thesis using assms by (simp add: perm_parity_swap_less)
qed

lemma perm_parity_upt: "perm_parity [m..<n] = 1"
proof (induction n)
  case 0 show ?case by simp
next
  case (Suc n)
  show ?case
  proof (cases "m \<le> n")
    case True
    have "(\<Prod>x\<leftarrow>[m..<n]. \<Prod>y\<leftarrow>[n]. if y < x then - 1 else (1::int)) = (\<Prod>x\<leftarrow>[m..<n]. 1)"
      by (rule arg_cong[where f = prod_list]) simp
    with True Suc show ?thesis by (simp add: perm_parity_append prod_list_ones)
  next
    case False then show ?thesis by simp
  qed
qed

lemma perm_parity_cases: "perm_parity xs = 1 \<or> perm_parity xs = - 1"
proof (induction xs)
  case Nil show ?case by simp
next
  case (Cons x xs)
  have "(\<Prod>y\<leftarrow>ys. if y < x then - 1 else (1::int)) = 1 \<or> (\<Prod>y\<leftarrow>ys. if y < x then - 1 else (1::int)) = - 1" for ys
    by (induction ys) auto
  with Cons show ?case by (metis perm_parity.simps(2) mult_1 mult_minus1 minus_minus mult.commute)
qed

section \<open>Antisymmetry of the tensor\<close>

lemma in_range_swap:
  assumes "in_range (replicate d d) idx" "a < d" "b < d"
  shows "in_range (replicate d d) (idx[a := idx ! b, b := idx ! a])"
proof -
  from assms have len: "length idx = d" and lt: "\<forall>x\<in>set idx. x < d"
    by (simp_all add: in_range_replicate)
  have "set (idx[a := idx ! b, b := idx ! a]) = set idx"
    using assms(2,3) len by (simp add: set_swap)
  with len lt show ?thesis by (simp add: in_range_replicate)
qed

lemma item_levi_civita_swap:
  assumes "in_range (replicate d d) idx" "a < d" "b < d" "a \<noteq> b"
  shows "item (levi_civita_tensor_wrapped d) (idx[a := idx ! b, b := idx ! a])
           = - item (levi_civita_tensor_wrapped d) idx"
proof -
  from assms(1) have len: "length idx = d" by (simp add: in_range_replicate)
  have dist: "distinct (idx[a := idx ! b, b := idx ! a]) = distinct idx"
    using assms(2,3) len by (simp add: distinct_swap)
  show ?thesis
  proof (cases "distinct idx")
    case True
    then have "perm_parity (idx[a := idx ! b, b := idx ! a]) = - perm_parity idx"
      using assms(2-4) len by (simp add: perm_parity_swap)
    with True dist show ?thesis
      by (simp add: item_levi_civita_tensor_wrapped[OF assms(1)]
            item_levi_civita_tensor_wrapped[OF in_range_swap[OF assms(1-3)]])
  next
    case False
    with dist show ?thesis
      by (simp add: item_levi_civita_tensor_wrapped[OF assms(1)]
            item_levi_civita_tensor_wrapped[OF in_range_swap[OF assms(1-3)]])
  qed
qed

text \<open>
  C5: the tensor returned for \<open>d\<close> has shape \<open>(d,)^d\<close>. Its entry at an index tuple with
  two equal indices is 0; its entry at a permutation of \<open>0..d-1\<close> is the sign of that
  permutation, +1 or -1, with +1 at the identity; and exchanging any two indices of an
  index tuple negates the entry. This holds for every \<open>d\<close>, so for 2, 3 and 4.
\<close>

theorem levi_civita_tensor_antisymmetric:
  assumes "in_range (replicate d d) idx"
  shows "shape (fst (levi_civita_tensor d (after_calls history))) = replicate d d
    \<and> wf_array (fst (levi_civita_tensor d (after_calls history)))
    \<and> (\<not> distinct idx \<longrightarrow> item (fst (levi_civita_tensor d (after_calls history))) idx = 0)
    \<and> (distinct idx \<longrightarrow>
          item (fst (levi_civita_tensor d (after_calls history))) idx = real_of_int (perm_parity idx)
          \<and> (perm_parity idx = 1 \<or> perm_parity idx = - 1))
    \<and> item (fst (levi_civita_tensor d (after_calls history))) [0..<d] = 1
    \<and> (\<forall>a<d. \<forall>b<d. a \<noteq> b \<longrightarrow>
          item (fst (levi_civita_tensor d (after_calls history))) (idx[a := idx ! b, b := idx ! a])
            = - item (fst (levi_civita_tensor d (after_calls history))) idx)"
proof -
  have id: "in_range (replicate d d) [0..<d]" by (simp add: in_range_replicate)
  show ?thesis
    unfolding levi_civita_tensor_after_calls
    using assms perm_parity_cases[of idx]
    by (simp add: shape_levi_civita_tensor_wrapped wf_levi_civita_tensor_wrapped
          item_levi_civita_tensor_wrapped[OF assms] item_levi_civita_tensor_wrapped[OF id]
          perm_parity_upt item_levi_civita_swap)
qed

theorem levi_civita_tensor_antisymmetric_witness:
  "in_range (replicate 3 3) [0, 2, 1]
   \<and> shape (fst (levi_civita_tensor 3 (after_calls []))) = replicate 3 3
   \<and> distinct [0, 2, 1::nat]
   \<and> item (fst (levi_civita_tensor 3 (after_calls []))) [0, 2, 1] = - 1
   \<and> item (fst (levi_civita_tensor 3 (after_calls []))) [0, 2, 1] = real_of_int (perm_parity [0, 2, 1])
   \<and> item (fst (levi_civita_tensor 3 (after_calls []))) [0..<3] = 1
   \<and> item (fst (levi_civita_tensor 3 (after_calls []))) [0, 1, 2]
       = - item (fst (levi_civita_tensor 3 (after_calls []))) [0, 2, 1]"
proof -
  have h: "in_range (replicate 3 3) [0, 2, 1]" by code_simp
  have e: "item (fst (levi_civita_tensor 3 (after_calls []))) [0, 2, 1] = - 1" by code_simp
  note t = levi_civita_tensor_antisymmetric[OF h, of "[]"]
  from t have "\<forall>a<3. \<forall>b<3. a \<noteq> b \<longrightarrow>
          item (fst (levi_civita_tensor 3 (after_calls []))) ([0, 2, 1][a := [0, 2, 1] ! b, b := [0, 2, 1] ! a])
            = - item (fst (levi_civita_tensor 3 (after_calls []))) [0, 2, 1]"
    by simp
  then have "(1::nat) < 3 \<longrightarrow> (2::nat) < 3 \<longrightarrow> (1::nat) \<noteq> 2 \<longrightarrow>
          item (fst (levi_civita_tensor 3 (after_calls []))) ([0, 2, 1][1 := [0, 2, 1] ! 2, 2 := [0, 2, 1] ! 1])
            = - item (fst (levi_civita_tensor 3 (after_calls []))) [0, 2, 1]"
    by blast
  then have s: "item (fst (levi_civita_tensor 3 (after_calls []))) [0, 1, 2]
       = - item (fst (levi_civita_tensor 3 (after_calls []))) [0, 2, 1]"
    by (simp add: numeral_2_eq_2)
  from t h e s show ?thesis
    by simp
qed

section \<open>Cross product\<close>

lemma batch_cross_after_calls:
  "shape u = d # rest \<Longrightarrow>
   batch_cross u v (after_calls history)
     = (einsum ''ijk,jl,kl->il'' [levi_civita_tensor_wrapped d, u, v], after_calls (history @ [d]))"
  using levi_civita_tensor_after_calls[of d history]
  by (cases "levi_civita_tensor d (after_calls history)")
     (simp add: batch_cross_def after_calls_snoc)

lemma shape_levi_civita_3: "shape (levi_civita_tensor_wrapped 3) = [3, 3, 3]"
  by (simp add: shape_levi_civita_tensor_wrapped numeral_3_eq_3)

lemma einsum_cross_rank:
  "length (shape eps) \<noteq> 3 \<Longrightarrow> einsum ''ijk,jl,kl->il'' [eps, u, v] = Inl ValueError"
  by (simp add: einsum_def parse_subscripts_def Let_def)

lemma item_levi_civita_3:
  assumes "i < 3" "j < 3" "k < 3"
  shows "item (levi_civita_tensor_wrapped 3) [i, j, k]
     = (if i \<noteq> j \<and> i \<noteq> k \<and> j \<noteq> k then real_of_int (perm_parity [i, j, k]) else 0)"
proof -
  have "in_range (replicate 3 3) [i, j, k]"
    using assms by (simp add: numeral_3_eq_3)
  then show ?thesis by (simp add: item_levi_civita_tensor_wrapped)
qed

lemma item_levi_civita_3_swap:
  assumes "i < 3" "j < 3" "k < 3"
  shows "item (levi_civita_tensor_wrapped 3) [i, k, j] = - item (levi_civita_tensor_wrapped 3) [i, j, k]"
proof -
  have "in_range (replicate 3 3) [i, j, k]"
    using assms by (simp add: numeral_3_eq_3)
  from item_levi_civita_swap[OF this, of 1 2] show ?thesis by simp
qed

lemma batch_cross_items:
  assumes "shape u = [3, N]" "shape v = [3, N]"
  shows "\<exists>out. fst (batch_cross u v (after_calls history)) = Inr out \<and> shape out = [3, N]
           \<and> wf_array out \<and>
           (\<forall>i<3. \<forall>k<N. item out [i, k] =
              (\<Sum>j<3. \<Sum>l<3. item (levi_civita_tensor_wrapped 3) [i, j, l] * item u [j, k] * item v [l, k]))"
  using einsum_cross_items[OF shape_levi_civita_3 assms]
  by (simp add: batch_cross_after_calls[OF assms(1)])

lemma sum_lessThan_3: "(\<Sum>j<(3::nat). f j) = f 0 + f 1 + (f 2 :: real)"
  by (simp add: numeral_3_eq_3 numeral_2_eq_2)

lemma cross_sum_anticommutes:
  assumes "i < 3"
  shows "(\<Sum>j<3. \<Sum>k<3. item (levi_civita_tensor_wrapped 3) [i, j, k] * item u [j, l] * item v [k, l])
      = - (\<Sum>j<3. \<Sum>k<3. item (levi_civita_tensor_wrapped 3) [i, j, k] * item v [j, l] * item u [k, l])"
proof -
  let ?e = "levi_civita_tensor_wrapped 3"
  have "(\<Sum>j<3. \<Sum>k<3. item ?e [i, j, k] * item u [j, l] * item v [k, l])
      = (\<Sum>k<3. \<Sum>j<3. item ?e [i, j, k] * item u [j, l] * item v [k, l])"
    by (rule sum.swap)
  also have "\<dots> = (\<Sum>k<3. \<Sum>j<3. - (item ?e [i, k, j] * item v [k, l] * item u [j, l]))"
  proof (intro sum.cong refl)
    fix k j :: nat assume "k \<in> {..<3}" "j \<in> {..<3}"
    then have "item ?e [i, j, k] = - item ?e [i, k, j]"
      using item_levi_civita_3_swap[OF assms, of k j] by simp
    then show "item ?e [i, j, k] * item u [j, l] * item v [k, l]
        = - (item ?e [i, k, j] * item v [k, l] * item u [j, l])"
      by simp
  qed
  also have "\<dots> = - (\<Sum>k<3. \<Sum>j<3. item ?e [i, k, j] * item v [k, l] * item u [j, l])"
    by (simp only: sum_negf)
  finally show ?thesis .
qed

lemma negative_array:
  "negative \<lparr>shape = shp, data = map f (ndindex shp)\<rparr>
     = \<lparr>shape = shp, data = map (\<lambda>oi. - f oi) (ndindex shp)\<rparr>"
  by (simp add: negative_def comp_def)

lemma empty_array:
  "wf_array out \<Longrightarrow> shape out = shp \<Longrightarrow> prod_list shp = 0 \<Longrightarrow> out = \<lparr>shape = shp, data = []\<rparr>"
  by (cases out) (simp add: wf_array_def)

text \<open>
  C1, as the code has it: the contraction is written for three indices, so it is the
  cross product of dimension 3. For vector batches \<open>u\<close>, \<open>v\<close> of shape \<open>(3, N)\<close>,
  \<^verbatim>\<open>batch_cross\<close> returns a vector batch of shape \<open>(3, N)\<close> whose entry \<open>[i, k]\<close> is
  the sum over \<open>j\<close>, \<open>l\<close> of \<open>epsilon[i, j, l] * u[j, k] * v[l, k]\<close>, with \<open>epsilon\<close> the
  tensor returned for dimension 3; this is the conventional cross product of every slot.
\<close>

theorem batch_cross_correct:
  assumes "wf_array u" "wf_array v" "shape u = [3, N]" "shape v = [3, N]"
  shows "\<exists>out. fst (batch_cross u v (after_calls history)) = Inr out \<and> shape out = [3, N]
     \<and> wf_array out
     \<and> (\<forall>i<3. \<forall>k<N. item out [i, k] =
           (\<Sum>j<3. \<Sum>l<3. item (fst (levi_civita_tensor 3 (after_calls history))) [i, j, l]
                              * item u [j, k] * item v [l, k]))
     \<and> (\<forall>k<N. item out [0, k] = item u [1, k] * item v [2, k] - item u [2, k] * item v [1, k]
             \<and> item out [1, k] = item u [2, k] * item v [0, k] - item u [0, k] * item v [2, k]
             \<and> item out [2, k] = item u [0, k] * item v [1, k] - item u [1, k] * item v [0, k])"
proof -
  from batch_cross_items[OF assms(3,4)] obtain out where
    out: "fst (batch_cross u v (after_calls history)) = Inr out" "shape out = [3, N]" "wf_array out"
      "\<And>i k. i < 3 \<Longrightarrow> k < N \<Longrightarrow> item out [i, k] =
         (\<Sum>j<3. \<Sum>l<3. item (levi_civita_tensor_wrapped 3) [i, j, l] * item u [j, k] * item v [l, k])"
    by blast
  have "item out [0, k] = item u [1, k] * item v [2, k] - item u [2, k] * item v [1, k]"
    "item out [1, k] = item u [2, k] * item v [0, k] - item u [0, k] * item v [2, k]"
    "item out [2, k] = item u [0, k] * item v [1, k] - item u [1, k] * item v [0, k]"
    if "k < N" for k
    using that by (simp_all add: out(4) sum_lessThan_3 item_levi_civita_3)
  with out show ?thesis
    by (simp add: levi_civita_tensor_after_calls)
qed

theorem batch_cross_correct_witness:
  "wf_array \<lparr>shape = [3, 1], data = [1, 0, 0]\<rparr> \<and> wf_array \<lparr>shape = [3, 1], data = [0, 1, 0]\<rparr>
   \<and> fst (batch_cross \<lparr>shape = [3, 1], data = [1, 0, 0]\<rparr> \<lparr>shape = [3, 1], data = [0, 1, 0]\<rparr> (after_calls []))
       = Inr \<lparr>shape = [3, 1], data = [0, 0, 1]\<rparr>
   \<and> item \<lparr>shape = [3, 1], data = [0, 0, 1]\<rparr> [2, 0]
       = item \<lparr>shape = [3, 1], data = [1, 0, 0]\<rparr> [0, 0] * item \<lparr>shape = [3, 1], data = [0, 1, 0]\<rparr> [1, 0]
       - item \<lparr>shape = [3, 1], data = [1, 0, 0]\<rparr> [1, 0] * item \<lparr>shape = [3, 1], data = [0, 1, 0]\<rparr> [0, 0]"
proof -
  have w1: "wf_array \<lparr>shape = [3, 1], data = [1, 0, 0]\<rparr>" by (simp add: wf_array_def)
  have w2: "wf_array \<lparr>shape = [3, 1], data = [0, 1, 0]\<rparr>" by (simp add: wf_array_def)
  have e: "fst (batch_cross \<lparr>shape = [3, 1], data = [1, 0, 0]\<rparr> \<lparr>shape = [3, 1], data = [0, 1, 0]\<rparr> (after_calls []))
       = Inr \<lparr>shape = [3, 1], data = [0, 0, 1]\<rparr>" by code_simp
  from batch_cross_correct[OF w1 w2, of 1 "[]"] e
  have "\<forall>k<1. item \<lparr>shape = [3, 1], data = [0, 0, 1]\<rparr> [2, k]
       = item \<lparr>shape = [3, 1], data = [1, 0, 0]\<rparr> [0, k] * item \<lparr>shape = [3, 1], data = [0, 1, 0]\<rparr> [1, k]
       - item \<lparr>shape = [3, 1], data = [1, 0, 0]\<rparr> [1, k] * item \<lparr>shape = [3, 1], data = [0, 1, 0]\<rparr> [0, k]"
    by auto
  then have "item \<lparr>shape = [3, 1], data = [0, 0, 1]\<rparr> [2, 0]
       = item \<lparr>shape = [3, 1], data = [1, 0, 0]\<rparr> [0, 0] * item \<lparr>shape = [3, 1], data = [0, 1, 0]\<rparr> [1, 0]
       - item \<lparr>shape = [3, 1], data = [1, 0, 0]\<rparr> [1, 0] * item \<lparr>shape = [3, 1], data = [0, 1, 0]\<rparr> [0, 0]"
    by simp
  with w1 w2 e show ?thesis by simp
qed

text \<open>
  For a dimension other than 3 the call does not return: the tensor for dimension 2 has
  two axes, and the subscripts \<^verbatim>\<open>ijk\<close> ask for three.
\<close>

theorem batch_cross_dimension_counterexample:
  "fst (batch_cross \<lparr>shape = [2, 1], data = [1, 0]\<rparr> \<lparr>shape = [2, 1], data = [0, 1]\<rparr> (after_calls []))
     = Inl ValueError"
  by code_simp

text \<open>
  C7, as the code has it: for vector batches \<open>u\<close>, \<open>v\<close> of shape \<open>(3, N)\<close> both
  \<^verbatim>\<open>batch_cross(u, v)\<close> and \<^verbatim>\<open>batch_cross(v, u)\<close> return a batch of shape \<open>(3, N)\<close>, and
  the first is the negation of the second, entry by entry, whatever requests the cache
  has seen before either call.
\<close>

theorem batch_cross_anticommutative:
  assumes "wf_array u" "wf_array v" "shape u = [3, N]" "shape v = [3, N]"
  shows "\<exists>uv vu. fst (batch_cross u v (after_calls history)) = Inr uv
           \<and> fst (batch_cross v u (after_calls history')) = Inr vu
           \<and> shape uv = [3, N] \<and> shape vu = [3, N] \<and> wf_array uv \<and> wf_array vu
           \<and> uv = negative vu
           \<and> (\<forall>i<3. \<forall>k<N. item uv [i, k] = - item vu [i, k])"
proof -
  let ?e = "levi_civita_tensor_wrapped 3"
  let ?F = "\<lambda>oi. \<Sum>j<3. \<Sum>k<3. item ?e [oi ! 0, j, k] * item u [j, oi ! 1] * item v [k, oi ! 1]"
  let ?G = "\<lambda>oi. \<Sum>j<3. \<Sum>k<3. item ?e [oi ! 0, j, k] * item v [j, oi ! 1] * item u [k, oi ! 1]"
  let ?uv = "\<lparr>shape = [3, N], data = map ?F (ndindex [3, N])\<rparr>"
  let ?vu = "\<lparr>shape = [3, N], data = map ?G (ndindex [3, N])\<rparr>"
  have uv: "fst (batch_cross u v (after_calls history)) = Inr ?uv"
    unfolding batch_cross_after_calls[OF assms(3)] fst_conv
    by (rule einsum_cross_eq[OF shape_levi_civita_3 assms(3,4)])
  have vu: "fst (batch_cross v u (after_calls history')) = Inr ?vu"
    unfolding batch_cross_after_calls[OF assms(4)] fst_conv
    by (rule einsum_cross_eq[OF shape_levi_civita_3 assms(4,3)])
  have FG: "?F idx = - ?G idx" if "in_range [3, N] idx" for idx
  proof -
    from that obtain i l where "idx = [i, l]" "i < 3"
      by (auto simp: in_range_Cons_iff in_range_Nil_iff)
    then show ?thesis
      using cross_sum_anticommutes[of i u l v] by simp
  qed
  have "map ?F (ndindex [3, N]) = map (\<lambda>oi. - ?G oi) (ndindex [3, N])"
    by (rule map_ndindex_cong) (rule FG)
  then have neg: "?uv = negative ?vu"
    by (simp only: negative_array)
  have items: "item ?uv [i, k] = - item ?vu [i, k]" if "i < 3" "k < N" for i k
  proof -
    from that have r: "in_range [3, N] [i, k]" by simp
    show ?thesis
      unfolding item_map_ndindex[OF r] by (rule FG[OF r])
  qed
  have shapes: "shape ?uv = [3, N]" "shape ?vu = [3, N]"
    by simp_all
  have wfs: "wf_array ?uv" "wf_array ?vu"
    by (rule wf_array_map_ndindex)+
  from items have all: "\<forall>i<3. \<forall>k<N. item ?uv [i, k] = - item ?vu [i, k]"
    by blast
  show ?thesis
    by (intro exI conjI) (rule uv vu shapes wfs neg all)+
qed

theorem batch_cross_anticommutative_witness:
  "wf_array \<lparr>shape = [3, 1], data = [1, 2, 3]\<rparr> \<and> wf_array \<lparr>shape = [3, 1], data = [4, 5, 6]\<rparr>
   \<and> fst (batch_cross \<lparr>shape = [3, 1], data = [1, 2, 3]\<rparr> \<lparr>shape = [3, 1], data = [4, 5, 6]\<rparr> (after_calls []))
       = Inr \<lparr>shape = [3, 1], data = [- 3, 6, - 3]\<rparr>
   \<and> fst (batch_cross \<lparr>shape = [3, 1], data = [4, 5, 6]\<rparr> \<lparr>shape = [3, 1], data = [1, 2, 3]\<rparr> (after_calls [3]))
       = Inr \<lparr>shape = [3, 1], data = [3, - 6, 3]\<rparr>
   \<and> \<lparr>shape = [3, 1], data = [- 3, 6, - 3]\<rparr> = negative \<lparr>shape = [3, 1], data = [3, - 6, 3]\<rparr>
   \<and> item \<lparr>shape = [3, 1], data = [- 3, 6, - 3]\<rparr> [1, 0]
       = - item \<lparr>shape = [3, 1], data = [3, - 6, 3]\<rparr> [1, 0]"
proof -
  have w1: "wf_array \<lparr>shape = [3, 1], data = [1, 2, 3]\<rparr>" by (simp add: wf_array_def)
  have w2: "wf_array \<lparr>shape = [3, 1], data = [4, 5, 6]\<rparr>" by (simp add: wf_array_def)
  have e1: "fst (batch_cross \<lparr>shape = [3, 1], data = [1, 2, 3]\<rparr> \<lparr>shape = [3, 1], data = [4, 5, 6]\<rparr> (after_calls []))
       = Inr \<lparr>shape = [3, 1], data = [- 3, 6, - 3]\<rparr>" by code_simp
  have e2: "fst (batch_cross \<lparr>shape = [3, 1], data = [4, 5, 6]\<rparr> \<lparr>shape = [3, 1], data = [1, 2, 3]\<rparr> (after_calls [3]))
       = Inr \<lparr>shape = [3, 1], data = [3, - 6, 3]\<rparr>" by code_simp
  from batch_cross_anticommutative[OF w1 w2, of 1 "[]" "[3]"] e1 e2
  have n: "\<lparr>shape = [3, 1], data = [- 3, 6, - 3]\<rparr> = negative \<lparr>shape = [3, 1], data = [3, - 6, 3]\<rparr>"
    and a: "\<forall>i<3. \<forall>k<1. item \<lparr>shape = [3, 1], data = [- 3, 6, - 3]\<rparr> [i, k]
              = - item \<lparr>shape = [3, 1], data = [3, - 6, 3]\<rparr> [i, k]"
    by auto
  from a have i: "item \<lparr>shape = [3, 1], data = [- 3, 6, - 3]\<rparr> [1, 0]
       = - item \<lparr>shape = [3, 1], data = [3, - 6, 3]\<rparr> [1, 0]"
    by simp
  show ?thesis
    by (intro conjI) (rule w1 w2 e1 e2 n i)+
qed

text \<open>
  For a dimension other than 3 there is nothing to negate: on batches of shape \<open>(2, 1)\<close>
  neither call returns.
\<close>

theorem batch_cross_anticommutative_counterexample:
  "fst (batch_cross \<lparr>shape = [2, 1], data = [1, 2]\<rparr> \<lparr>shape = [2, 1], data = [3, 4]\<rparr> (after_calls []))
     = Inl ValueError
   \<and> fst (batch_cross \<lparr>shape = [2, 1], data = [3, 4]\<rparr> \<lparr>shape = [2, 1], data = [1, 2]\<rparr> (after_calls [2]))
     = Inl ValueError"
  by code_simp

section \<open>Empty batches\<close>

text \<open>
  C10: with block size 0 every kernel succeeds. \<^verbatim>\<open>batch_matvec\<close> on shapes
  \<open>(d, d, 0)\<close> and \<open>(d, 0)\<close> returns the empty array of shape \<open>(d, 0)\<close>, \<^verbatim>\<open>batch_matmul\<close>
  on two batches of shape \<open>(d, d, 0)\<close> returns the empty array of shape \<open>(d, d, 0)\<close>, and
  \<^verbatim>\<open>batch_cross\<close> on two batches of shape \<open>(3, 0)\<close> returns the empty array of shape
  \<open>(3, 0)\<close>.
\<close>

theorem empty_batches:
  assumes "wf_array matrices" "wf_array vectors" "shape matrices = [d, d, 0]" "shape vectors = [d, 0]"
    and "wf_array A" "wf_array B" "shape A = [d', d', 0]" "shape B = [d', d', 0]"
    and "wf_array u" "wf_array v" "shape u = [3, 0]" "shape v = [3, 0]"
  shows "batch_matvec matrices vectors = Inr \<lparr>shape = [d, 0], data = []\<rparr>
     \<and> batch_matmul A B = Inr \<lparr>shape = [d', d', 0], data = []\<rparr>
     \<and> fst (batch_cross u v (after_calls history)) = Inr \<lparr>shape = [3, 0], data = []\<rparr>"
proof (intro conjI)
  from batch_matvec_items[OF assms(3,4)] show "batch_matvec matrices vectors = Inr \<lparr>shape = [d, 0], data = []\<rparr>"
    by (auto dest: empty_array)
  from batch_matmul_items[OF assms(7,8)] show "batch_matmul A B = Inr \<lparr>shape = [d', d', 0], data = []\<rparr>"
    by (auto dest: empty_array)
  from batch_cross_items[OF assms(11,12), of history]
  show "fst (batch_cross u v (after_calls history)) = Inr \<lparr>shape = [3, 0], data = []\<rparr>"
    by (auto dest: empty_array)
qed

theorem empty_batches_witness:
  "wf_array \<lparr>shape = [2, 2, 0], data = []\<rparr> \<and> wf_array \<lparr>shape = [2, 0], data = []\<rparr>
   \<and> wf_array \<lparr>shape = [3, 0], data = []\<rparr>
   \<and> batch_matvec \<lparr>shape = [2, 2, 0], data = []\<rparr> \<lparr>shape = [2, 0], data = []\<rparr>
       = Inr \<lparr>shape = [2, 0], data = []\<rparr>
   \<and> batch_matmul \<lparr>shape = [2, 2, 0], data = []\<rparr> \<lparr>shape = [2, 2, 0], data = []\<rparr>
       = Inr \<lparr>shape = [2, 2, 0], data = []\<rparr>
   \<and> fst (batch_cross \<lparr>shape = [3, 0], data = []\<rparr> \<lparr>shape = [3, 0], data = []\<rparr> (after_calls []))
       = Inr \<lparr>shape = [3, 0], data = []\<rparr>"
proof -
  have w1: "wf_array \<lparr>shape = [2, 2, 0], data = []\<rparr>" by (simp add: wf_array_def)
  have w2: "wf_array \<lparr>shape = [2, 0], data = []\<rparr>" by (simp add: wf_array_def)
  have w3: "wf_array \<lparr>shape = [3, 0], data = []\<rparr>" by (simp add: wf_array_def)
  from empty_batches[OF w1 w2 _ _ w1 w1 _ _ w3 w3, of 2 2 "[]"] w1 w2 w3 show ?thesis
    by simp
qed

section \<open>Failures\<close>

lemma broadcast_dims_single: "broadcast_dims [a] = Some a"
  by simp

lemma broadcast_dims_pair:
  "broadcast_dims [a, b] = (if a = b \<or> b = 1 then Some a else if a = 1 then Some b else None)"
  by (simp add: broadcast_dim_def)

lemma batch_matvec_outcome:
  assumes "shape M = [p, q, n]" "shape v = [q', n']"
  shows "if (q = q' \<or> q = 1 \<or> q' = 1) \<and> (n = n' \<or> n = 1 \<or> n' = 1)
         then \<exists>out. batch_matvec M v = Inr out
         else batch_matvec M v = Inl ValueError"
  using assms
  by (simp add: batch_matvec_def einsum_def parse_subscripts_def label_dims_def Let_def
        broadcast_dim_def del: ndindex.simps broadcast_dims.simps
        add: broadcast_dims_single broadcast_dims_pair)

lemma batch_matmul_outcome:
  assumes "shape A = [p, q, n]" "shape B = [q', r, n']"
  shows "if (q = q' \<or> q = 1 \<or> q' = 1) \<and> (n = n' \<or> n = 1 \<or> n' = 1)
         then \<exists>out. batch_matmul A B = Inr out
         else batch_matmul A B = Inl ValueError"
  using assms
  by (simp add: batch_matmul_def einsum_def parse_subscripts_def label_dims_def Let_def
        broadcast_dim_def del: ndindex.simps broadcast_dims.simps
        add: broadcast_dims_single broadcast_dims_pair)

lemma einsum_cross_outcome:
  assumes "shape eps = [3, 3, 3]" "shape u = [3, n]" "shape v = [d', n']"
  shows "if (d' = 3 \<or> d' = 1) \<and> (n = n' \<or> n = 1 \<or> n' = 1)
         then \<exists>out. einsum ''ijk,jl,kl->il'' [eps, u, v] = Inr out
         else einsum ''ijk,jl,kl->il'' [eps, u, v] = Inl ValueError"
  using assms
  by (simp add: einsum_def parse_subscripts_def label_dims_def Let_def
        broadcast_dim_def del: ndindex.simps broadcast_dims.simps
        add: broadcast_dims_single broadcast_dims_pair)

lemma batch_cross_outcome:
  assumes "shape u = [d, n]" "shape v = [d', n']"
  shows "if d = 3 \<and> (d' = 3 \<or> d' = 1) \<and> (n = n' \<or> n = 1 \<or> n' = 1)
         then \<exists>out. fst (batch_cross u v (after_calls history)) = Inr out
         else fst (batch_cross u v (after_calls history)) = Inl ValueError"
proof (cases "d = 3")
  case True
  with assms have u: "shape u = [3, n]" by simp
  show ?thesis
    using einsum_cross_outcome[OF shape_levi_civita_3 u assms(2)] True
    by (simp add: batch_cross_after_calls[OF u])
next
  case False
  then have "length (shape (levi_civita_tensor_wrapped d)) \<noteq> 3"
    by (simp add: shape_levi_civita_tensor_wrapped)
  then have "einsum ''ijk,jl,kl->il'' [levi_civita_tensor_wrapped d, u, v] = Inl ValueError"
    by (rule einsum_cross_rank)
  with False show ?thesis
    by (simp add: batch_cross_after_calls[OF assms(1)])
qed

text \<open>
  C2, as the code has it. The kernels check nothing themselves; what fails is numpy's
  contraction, with ValueError. For operands with the expected number of axes a call
  fails exactly when two sizes that the subscripts tie together differ and neither is 1
  (a size of 1 is broadcast); for \<^verbatim>\<open>batch_cross\<close> also when the first axis of the first
  operand is not 3. The first axis of the matrices of \<^verbatim>\<open>batch_matvec\<close> is tied to
  nothing. In particular \<^verbatim>\<open>batch_matvec\<close> on shapes \<open>(3, 3, 5)\<close> and \<open>(3, 4)\<close> fails.
  \<^verbatim>\<open>batch_cross\<close> on an array without axes fails with IndexError.
\<close>

theorem shape_mismatch_errors:
  assumes "shape matrices = [p, q, n]" "shape vectors = [q', n']"
    and "shape A = [a, b, m]" "shape B = [b', c, m']"
    and "shape u = [d, k]" "shape v = [d', k']"
  shows "(if (q = q' \<or> q = 1 \<or> q' = 1) \<and> (n = n' \<or> n = 1 \<or> n' = 1)
          then \<exists>out. batch_matvec matrices vectors = Inr out
          else batch_matvec matrices vectors = Inl ValueError)
     \<and> (if (b = b' \<or> b = 1 \<or> b' = 1) \<and> (m = m' \<or> m = 1 \<or> m' = 1)
          then \<exists>out. batch_matmul A B = Inr out
          else batch_matmul A B = Inl ValueError)
     \<and> (if d = 3 \<and> (d' = 3 \<or> d' = 1) \<and> (k = k' \<or> k = 1 \<or> k' = 1)
          then \<exists>out. fst (batch_cross u v (after_calls history)) = Inr out
          else fst (batch_cross u v (after_calls history)) = Inl ValueError)
     \<and> (p = 3 \<and> q = 3 \<and> n = 5 \<and> q' = 3 \<and> n' = 4
            \<longrightarrow> batch_matvec matrices vectors = Inl ValueError)
     \<and> (shape w = [] \<longrightarrow> batch_cross w v cache = (Inl IndexError, cache))"
proof (intro conjI impI)
  assume "shape w = []"
  then show "batch_cross w v cache = (Inl IndexError, cache)"
    by (simp add: batch_cross_def)
next
  show "if (q = q' \<or> q = 1 \<or> q' = 1) \<and> (n = n' \<or> n = 1 \<or> n' = 1)
          then \<exists>out. batch_matvec matrices vectors = Inr out
          else batch_matvec matrices vectors = Inl ValueError"
    using assms(1,2) by (rule batch_matvec_outcome)
  show "if (b = b' \<or> b = 1 \<or> b' = 1) \<and> (m = m' \<or> m = 1 \<or> m' = 1)
          then \<exists>out. batch_matmul A B = Inr out
          else batch_matmul A B = Inl ValueError"
    using assms(3,4) by (rule batch_matmul_outcome)
  show "if d = 3 \<and> (d' = 3 \<or> d' = 1) \<and> (k = k' \<or> k = 1 \<or> k' = 1)
          then \<exists>out. fst (batch_cross u v (after_calls history)) = Inr out
          else fst (batch_cross u v (after_calls history)) = Inl ValueError"
    using assms(5,6) by (rule batch_cross_outcome)
  assume "p = 3 \<and> q = 3 \<and> n = 5 \<and> q' = 3 \<and> n' = 4"
  then show "batch_matvec matrices vectors = Inl ValueError"
    using batch_matvec_outcome[OF assms(1,2)] by simp
qed

theorem shape_mismatch_errors_witness:
  "batch_matvec \<lparr>shape = [3, 3, 5], data = replicate 45 1\<rparr> \<lparr>shape = [3, 4], data = replicate 12 1\<rparr>
     = Inl ValueError
   \<and> batch_matmul \<lparr>shape = [2, 2, 1], data = [1, 2, 3, 4]\<rparr> \<lparr>shape = [3, 2, 1], data = [1, 2, 3, 4, 5, 6]\<rparr>
     = Inl ValueError
   \<and> fst (batch_cross \<lparr>shape = [3, 2], data = [1, 2, 3, 4, 5, 6]\<rparr>
            \<lparr>shape = [3, 3], data = [1, 2, 3, 4, 5, 6, 7, 8, 9]\<rparr> (after_calls []))
     = Inl ValueError
   \<and> batch_cross \<lparr>shape = [], data = [1]\<rparr> \<lparr>shape = [3, 3], data = [1, 2, 3, 4, 5, 6, 7, 8, 9]\<rparr> empty_cache
     = (Inl IndexError, empty_cache)"
proof -
  have s1: "shape \<lparr>shape = [3, 3, 5], data = replicate 45 1\<rparr> = [3, 3, 5]" by simp
  have s2: "shape \<lparr>shape = [3, 4], data = replicate 12 1\<rparr> = [3, 4]" by simp
  have s3: "shape \<lparr>shape = [2, 2, 1], data = [1, 2, 3, 4]\<rparr> = [2, 2, 1]" by simp
  have s4: "shape \<lparr>shape = [3, 2, 1], data = [1, 2, 3, 4, 5, 6]\<rparr> = [3, 2, 1]" by simp
  have s5: "shape \<lparr>shape = [3, 2], data = [1, 2, 3, 4, 5, 6]\<rparr> = [3, 2]" by simp
  have s6: "shape \<lparr>shape = [3, 3], data = [1, 2, 3, 4, 5, 6, 7, 8, 9]\<rparr> = [3, 3]" by simp
  from shape_mismatch_errors[OF s1 s2 s3 s4 s5 s6, of "[]" "\<lparr>shape = [], data = [1]\<rparr>" empty_cache]
  show ?thesis
    by simp
qed

text \<open>
  Operand shapes that disagree on the dimension do not always fail: matrices of shape
  \<open>(2, 3, 1)\<close> and vectors of shape \<open>(3, 1)\<close> are multiplied.
\<close>

theorem shape_mismatch_counterexample:
  "batch_matvec \<lparr>shape = [2, 3, 1], data = [1, 2, 3, 4, 5, 6]\<rparr> \<lparr>shape = [3, 1], data = [1, 10, 100]\<rparr>
     = Inr \<lparr>shape = [2, 1], data = [321, 654]\<rparr>"
  by code_simp

end
